theory Spec2Isabelle
  imports Main "HOL-Library.Multiset"
begin

section \<open>Python strings\<close>

text \<open>
  A Python \<open>str\<close> is modelled as a \<open>string\<close>, one \<open>char\<close> per code point. The
  character classes used by \<open>str.split\<close>, \<open>str.strip\<close>, \<open>str.capitalize\<close>,
  \<open>str.isnumeric\<close> and \<open>str.istitle\<close> are those of ASCII text: characters outside
  ASCII are treated as caseless symbols that are neither spaces nor digits.
\<close>

definition isspace :: "char \<Rightarrow> bool" where
  "isspace c = (c \<in> set [CHR 0x09, CHR 0x0A, CHR 0x0B, CHR 0x0C, CHR 0x0D,
                          CHR 0x1C, CHR 0x1D, CHR 0x1E, CHR 0x1F, CHR 0x20])"

definition ascii_uppercase :: string where
  "ascii_uppercase = ''ABCDEFGHIJKLMNOPQRSTUVWXYZ''"

definition ascii_lowercase :: string where
  "ascii_lowercase = ''abcdefghijklmnopqrstuvwxyz''"

definition isupper :: "char \<Rightarrow> bool" where
  "isupper c = (c \<in> set ascii_uppercase)"

definition islower :: "char \<Rightarrow> bool" where
  "islower c = (c \<in> set ascii_lowercase)"

definition isdigit :: "char \<Rightarrow> bool" where
  "isdigit c = (c \<in> set ''0123456789'')"

definition upper :: "char \<Rightarrow> char" where
  "upper c = (case map_of (zip ascii_lowercase ascii_uppercase) c of Some u \<Rightarrow> u | None \<Rightarrow> c)"

definition lower :: "char \<Rightarrow> char" where
  "lower c = (case map_of (zip ascii_uppercase ascii_lowercase) c of Some l \<Rightarrow> l | None \<Rightarrow> c)"

text \<open>\<open>s.split(sep)\<close> for a one-character separator keeps empty pieces.\<close>

fun split_by :: "(char \<Rightarrow> bool) \<Rightarrow> string \<Rightarrow> string list" where
  "split_by sep [] = [[]]"
| "split_by sep (c # cs) =
     (if sep c then [] # split_by sep cs
      else (case split_by sep cs of [] \<Rightarrow> [[c]] | w # ws \<Rightarrow> (c # w) # ws))"

definition split_on :: "char \<Rightarrow> string \<Rightarrow> string list" where
  "split_on d s = split_by (\<lambda>c. c = d) s"

text \<open>\<open>s.split()\<close> splits on runs of whitespace and returns no empty piece.\<close>

definition split_ws :: "string \<Rightarrow> string list" where
  "split_ws s = filter (\<lambda>w. w \<noteq> []) (split_by isspace s)"

definition lstrip_by :: "(char \<Rightarrow> bool) \<Rightarrow> string \<Rightarrow> string" where
  "lstrip_by P s = dropWhile P s"

definition rstrip_by :: "(char \<Rightarrow> bool) \<Rightarrow> string \<Rightarrow> string" where
  "rstrip_by P s = rev (dropWhile P (rev s))"

definition strip_by :: "(char \<Rightarrow> bool) \<Rightarrow> string \<Rightarrow> string" where
  "strip_by P s = lstrip_by P (rstrip_by P s)"

definition strip :: "string \<Rightarrow> string" where
  "strip s = strip_by isspace s"

definition rstrip :: "string \<Rightarrow> string" where
  "rstrip s = rstrip_by isspace s"

text \<open>The characters of \<open>',.()"'\<close>, the argument of \<open>strip\<close> in the generator.\<close>

definition punct :: string where
  "punct = [CHR '','', CHR ''.'', CHR ''('', CHR '')'', CHR 0x22]"

definition strip_punct :: "string \<Rightarrow> string" where
  "strip_punct w = strip_by (\<lambda>c. c \<in> set punct) w"

fun capitalize :: "string \<Rightarrow> string" where
  "capitalize [] = []"
| "capitalize (c # cs) = upper c # map lower cs"

definition isnumeric :: "string \<Rightarrow> bool" where
  "isnumeric s = (s \<noteq> [] \<and> list_all isdigit s)"

text \<open>
  \<open>str.istitle\<close>: an uppercase character may only follow an uncased one, a lowercase
  character only a cased one, and there is at least one cased character. The two flags
  are \<open>previous_is_cased\<close> and \<open>cased\<close> of the library's loop.
\<close>

fun istitle_loop :: "bool \<Rightarrow> bool \<Rightarrow> string \<Rightarrow> bool" where
  "istitle_loop prev cased [] = cased"
| "istitle_loop prev cased (c # cs) =
     (if isupper c then (if prev then False else istitle_loop True True cs)
      else if islower c then (if \<not> prev then False else istitle_loop True True cs)
      else istitle_loop False cased cs)"

definition istitle :: "string \<Rightarrow> bool" where
  "istitle s = istitle_loop False False s"

text \<open>\<open>str(n)\<close> for a non-negative integer.\<close>

fun str_nat :: "nat \<Rightarrow> string" where
  "str_nat n =
     (if n < 10 then [''0123456789'' ! n]
      else str_nat (n div 10) @ [''0123456789'' ! (n mod 10)])"

declare str_nat.simps [simp del]

section \<open>Randomness and set iteration order\<close>

text \<open>
  The module \<open>random\<close> is modelled by a source \<open>rnd\<close> of raw draws and a position
  \<open>p\<close> in it: the call of \<open>_randbelow(n)\<close> made at position \<open>p\<close> returns
  \<open>rnd p mod n\<close> and moves to \<open>Suc p\<close>. Every sequence of outcomes is the behaviour
  of some source.
\<close>

type_synonym rand = "nat \<Rightarrow> nat"

definition randbelow :: "rand \<Rightarrow> nat \<Rightarrow> nat \<Rightarrow> nat" where
  "randbelow rnd n p = rnd p mod n"

text \<open>\<open>random.choice(xs)\<close>; every call of the generator is on a non-empty list.\<close>

definition choice :: "rand \<Rightarrow> 'a list \<Rightarrow> nat \<Rightarrow> 'a" where
  "choice rnd xs p = xs ! randbelow rnd (length xs) p"

text \<open>\<open>random.randint(a, b)\<close> with \<open>a \<le> b\<close>.\<close>

definition randint :: "rand \<Rightarrow> nat \<Rightarrow> nat \<Rightarrow> nat \<Rightarrow> nat" where
  "randint rnd a b p = a + randbelow rnd (b - a + 1) p"

text \<open>
  \<open>random.shuffle(x)\<close>: for \<open>i\<close> from \<open>len(x) - 1\<close> down to \<open>1\<close>, draw
  \<open>j = _randbelow(i + 1)\<close> and exchange \<open>x[i]\<close> and \<open>x[j]\<close>.
\<close>

primrec shuffle_loop :: "rand \<Rightarrow> nat \<Rightarrow> 'a list \<Rightarrow> nat \<Rightarrow> 'a list \<times> nat" where
  "shuffle_loop rnd 0 xs p = (xs, p)"
| "shuffle_loop rnd (Suc n) xs p =
     (let i = Suc n; j = randbelow rnd (i + 1) p
      in shuffle_loop rnd n (xs[i := xs ! j, j := xs ! i]) (Suc p))"

definition shuffle :: "rand \<Rightarrow> 'a list \<Rightarrow> nat \<Rightarrow> 'a list \<times> nat" where
  "shuffle rnd xs p = shuffle_loop rnd (length xs - 1) xs p"

text \<open>
  A Python \<open>set\<close> of strings is kept as the list of its elements in insertion order,
  without repetition. \<open>list(words)\<close> iterates the set in an order the program does
  not control: the elements sorted by a rank \<open>h\<close>, a parameter of the model. Every
  order of the elements is the one of some rank.
\<close>

primrec dedup :: "'a list \<Rightarrow> 'a list" where
  "dedup [] = []"
| "dedup (x # xs) = x # filter (\<lambda>y. y \<noteq> x) (dedup xs)"

definition list_of_set :: "(string \<Rightarrow> nat) \<Rightarrow> string list \<Rightarrow> string list" where
  "list_of_set h xs = sort_key h xs"

section \<open>The quiz objects\<close>

record quiz_question =
  question :: string
  options :: "string list"
  answer :: string
  explanation :: string
  difficulty :: string

text \<open>\<open>title\<close> and \<open>summary\<close> are \<open>Optional[str]\<close> in \<open>QuizModel\<close>.\<close>

record quiz_dict =
  title :: "string option"
  summary :: "string option"
  quiz :: "quiz_question list"
  related_topics :: "string list"

section \<open>The fallback generator\<close>

definition split_sentences :: "string \<Rightarrow> string list" where
  "split_sentences clean_text =
     map strip (filter (\<lambda>s. strip s \<noteq> []) (split_on CHR ''.'' clean_text))"

definition sentences_of :: "string \<Rightarrow> string \<Rightarrow> string \<Rightarrow> string list" where
  "sentences_of ttl summ clean_text =
     (let sentences = split_sentences clean_text
      in if sentences = [] then (if summ \<noteq> [] then [summ] else [ttl]) else sentences)"

definition num_q_of :: "string list \<Rightarrow> nat" where
  "num_q_of sentences = min 7 (max 5 (length sentences div 3))"

text \<open>The words added to the pool, in the order of the two nested loops.\<close>

definition pool_tokens :: "string list \<Rightarrow> string list" where
  "pool_tokens sentences =
     concat (map (\<lambda>s. filter (\<lambda>w. length w > 3 \<and> \<not> isnumeric w)
                          (map (\<lambda>w. capitalize (strip_punct w)) (split_ws s)))
                 (take 20 sentences))"

definition word_pool :: "(string \<Rightarrow> nat) \<Rightarrow> string list \<Rightarrow> string list" where
  "word_pool h sentences = take 50 (list_of_set h (dedup (pool_tokens sentences)))"

definition source_index :: "nat \<Rightarrow> string list \<Rightarrow> nat" where
  "source_index i sentences = (if i < length sentences then i else 0)"

definition question_text :: "string \<Rightarrow> string \<Rightarrow> string \<Rightarrow> string" where
  "question_text ttl summ sentence =
     (let q_text = rstrip (take 200 sentence)
      in if length q_text < 10 then take 200 (if summ \<noteq> [] then summ else ttl) else q_text)"

definition candidates_of :: "string \<Rightarrow> string list" where
  "candidates_of sentence =
     filter (\<lambda>t. istitle t \<and> length t > 3) (map strip_punct (split_ws sentence))"

definition choose_correct :: "rand \<Rightarrow> string \<Rightarrow> string \<Rightarrow> nat \<Rightarrow> string \<times> nat" where
  "choose_correct rnd ttl sentence p =
     (let candidates = candidates_of sentence
      in if candidates \<noteq> [] then (choice rnd candidates p, Suc p)
         else (case split_ws sentence of [] \<Rightarrow> (ttl, p) | w # ws \<Rightarrow> (w, p)))"

definition pick_option :: "rand \<Rightarrow> string list \<Rightarrow> nat \<Rightarrow> string" where
  "pick_option rnd words p =
     (if words \<noteq> [] then choice rnd words p else ''Option'' @ str_nat (randint rnd 1 99 p))"

text \<open>
  The loop \<open>while len(options) < 4\<close>. It has no bound on its iterations, so its model
  returns an \<open>option\<close>: \<open>None\<close> is the loop that never ends.
\<close>

partial_function (option) build_options ::
  "rand \<Rightarrow> string list \<Rightarrow> string list \<Rightarrow> nat \<Rightarrow> (string list \<times> nat) option" where
  "build_options rnd words opts p =
     (if length opts < 4 then
        (let pick = pick_option rnd words p
         in build_options rnd words (if pick \<notin> set opts then opts @ [pick] else opts) (Suc p))
      else Some (opts, p))"

declare build_options.simps [code]

definition difficulties :: "string list" where
  "difficulties = replicate 3 ''easy'' @ replicate 2 ''medium'' @ [''hard'']"

definition explanation_of :: "string \<Rightarrow> string" where
  "explanation_of sentence =
     ''Based on the article text: '' @ [CHR 0x27] @ strip (take 120 sentence) @ [CHR 0x27] @ ''.''"

text \<open>One iteration of \<open>for i in range(num_q)\<close>: the question and the next position.\<close>

definition make_question ::
  "rand \<Rightarrow> string list \<Rightarrow> string list \<Rightarrow> string \<Rightarrow> string \<Rightarrow> nat \<Rightarrow> nat
     \<Rightarrow> (quiz_question \<times> nat) option" where
  "make_question rnd sentences words ttl summ i p =
     (let idx = source_index i sentences;
          q_text = question_text ttl summ (sentences ! idx);
          (correct, p1) = choose_correct rnd ttl (sentences ! idx) p
      in case build_options rnd words [correct] p1 of
           None \<Rightarrow> None
         | Some (opts, p2) \<Rightarrow>
             (let (shuffled, p3) = shuffle rnd opts p2
              in Some (\<lparr>question = q_text @ ''?'',
                        options = shuffled,
                        answer = correct,
                        explanation = explanation_of (sentences ! idx),
                        difficulty = choice rnd difficulties p3\<rparr>, Suc p3)))"

fun quiz_loop ::
  "rand \<Rightarrow> string list \<Rightarrow> string list \<Rightarrow> string \<Rightarrow> string \<Rightarrow> nat list \<Rightarrow> nat
     \<Rightarrow> (quiz_question list \<times> nat) option" where
  "quiz_loop rnd sentences words ttl summ [] p = Some ([], p)"
| "quiz_loop rnd sentences words ttl summ (i # is) p =
     (case make_question rnd sentences words ttl summ i p of
        None \<Rightarrow> None
      | Some (q, p') \<Rightarrow>
          (case quiz_loop rnd sentences words ttl summ is p' of
             None \<Rightarrow> None
           | Some (qs, p'') \<Rightarrow> Some (q # qs, p'')))"

text \<open>The two loops that build \<open>related\<close>; a falsy section title is the empty string.\<close>

definition related_of :: "string list \<Rightarrow> string list \<Rightarrow> string list" where
  "related_of secs words =
     (let related = fold (\<lambda>s r. if s \<noteq> [] \<and> s \<notin> set r then r @ [s] else r) (take 5 secs) []
      in fold (\<lambda>w r. if w \<notin> set r \<and> length r < 6 then r @ [w] else r) (take 6 words) related)"

text \<open>
  \<open>_fallback_generate_from_text\<close>, with the random source, its start position and the
  set order as parameters. \<open>None\<close>: the call does not return.
\<close>

definition fallback_generate_from_text ::
  "(string \<Rightarrow> nat) \<Rightarrow> rand \<Rightarrow> nat \<Rightarrow> string \<Rightarrow> string \<Rightarrow> string \<Rightarrow> string list
     \<Rightarrow> quiz_dict option" where
  "fallback_generate_from_text h rnd p0 ttl summ clean_text secs =
     (let sentences = sentences_of ttl summ clean_text;
          num_q = num_q_of sentences;
          words = word_pool h sentences
      in case quiz_loop rnd sentences words ttl summ [0 ..< num_q] p0 of
           None \<Rightarrow> None
         | Some (qz, p) \<Rightarrow>
             Some \<lparr>title = Some ttl, summary = Some summ, quiz = qz,
                   related_topics = related_of secs words\<rparr>)"

section \<open>Notions used in the statements\<close>

text \<open>
  A random source is fair when every outcome of \<open>_randbelow(n)\<close> occurs again after
  every position: the draws of a real generator are fair with probability one.
\<close>

definition fair :: "rand \<Rightarrow> bool" where
  "fair rnd = (\<forall>n p v. v < n \<longrightarrow> (\<exists>k. rnd (p + k) mod n = v))"

text \<open>
  The related topics in the words of the specification: the first five section titles
  without the empty and the repeated ones, then the first six pool words that are new,
  as long as fewer than six topics are listed.
\<close>

definition related_topics_spec :: "string list \<Rightarrow> string list \<Rightarrow> string list" where
  "related_topics_spec secs words =
     (let from_sections = dedup (filter (\<lambda>s. s \<noteq> []) (take 5 secs))
      in from_sections @
         take (6 - length from_sections)
           (filter (\<lambda>w. w \<notin> set from_sections) (dedup (take 6 words))))"

section \<open>JSON payloads and the schema of \<open>QuizModel\<close>\<close>

text \<open>
  The value \<open>json.loads\<close> returns: \<open>None\<close>, a \<open>bool\<close>, an \<open>int\<close>, a
  \<open>float\<close> (kept as mantissa and decimal exponent), a \<open>str\<close>, a \<open>list\<close> or a
  \<open>dict\<close> with string keys (an association list with one entry per key).
\<close>

datatype json =
    JNull
  | JBool bool
  | JInt int
  | JFloat int int
  | JString string
  | JArray "json list"
  | JObject "(string \<times> json) list"











section \<open>The choice of a provider\<close>










section \<open>Wikipedia URLs\<close>

datatype py_error = ValueError

text \<open>
  \<open>urlparse(url).netloc\<close> is library code (\<open>urllib.parse.urlsplit\<close>): leading C0
  control characters and spaces are stripped, tabs and newlines removed, a scheme and
  its colon are split off, and after \<open>//\<close> the netloc runs up to the first of
  \<open>/\<close>, \<open>?\<close> and \<open>#\<close>. \<open>ValueError\<close> is raised for unbalanced brackets, for a
  bracketed host that is no IPv6 or IPvFuture address, and for a netloc outside ASCII
  that fails the NFKC check; the last two tests are parameters of the model.
\<close>

record urllib_checks =
  bracketed_host_ok :: "string \<Rightarrow> bool"
  nfkc_ok :: "string \<Rightarrow> bool"

definition c0_control_or_space :: "char \<Rightarrow> bool" where
  "c0_control_or_space c = ((of_char c :: nat) \<le> 0x20)"

definition unsafe_url_bytes :: string where
  "unsafe_url_bytes = [CHR 0x09, CHR 0x0D, CHR 0x0A]"

definition scheme_chars :: string where
  "scheme_chars = ascii_lowercase @ ascii_uppercase @ ''0123456789'' @ ''+-.''"

definition isascii :: "char \<Rightarrow> bool" where
  "isascii c = ((of_char c :: nat) < 128)"

definition isalpha :: "char \<Rightarrow> bool" where
  "isalpha c = (isupper c \<or> islower c)"

text \<open>The URL after its scheme, when it has one.\<close>

definition drop_scheme :: "string \<Rightarrow> string" where
  "drop_scheme url =
     (let head = takeWhile (\<lambda>c. c \<noteq> CHR '':'') url
      in if CHR '':'' \<in> set url \<and> head \<noteq> [] \<and> isascii (hd url) \<and> isalpha (hd url) \<and>
            list_all (\<lambda>c. c \<in> set scheme_chars) head
         then drop (length head + 1) url else url)"

definition splitnetloc :: "string \<Rightarrow> string" where
  "splitnetloc url = takeWhile (\<lambda>c. c \<notin> set ''/?#'') (drop 2 url)"

definition bracketed_host :: "string \<Rightarrow> string" where
  "bracketed_host netloc =
     takeWhile (\<lambda>c. c \<noteq> CHR '']'') (drop 1 (dropWhile (\<lambda>c. c \<noteq> CHR ''['') netloc))"

definition checknetloc :: "urllib_checks \<Rightarrow> string \<Rightarrow> py_error + string" where
  "checknetloc lib netloc =
     (if netloc = [] \<or> list_all isascii netloc then Inr netloc
      else if nfkc_ok lib netloc then Inr netloc else Inl ValueError)"

definition urlparse_netloc :: "urllib_checks \<Rightarrow> string \<Rightarrow> py_error + string" where
  "urlparse_netloc lib url0 =
     (let url1 = dropWhile c0_control_or_space url0;
          url2 = filter (\<lambda>c. c \<notin> set unsafe_url_bytes) url1;
          url = drop_scheme url2
      in if take 2 url = ''//'' then
           (let netloc = splitnetloc url
            in if (CHR ''['' \<in> set netloc \<and> CHR '']'' \<notin> set netloc) \<or>
                  (CHR '']'' \<in> set netloc \<and> CHR ''['' \<notin> set netloc)
               then Inl ValueError
               else if CHR ''['' \<in> set netloc \<and> CHR '']'' \<in> set netloc \<and>
                       \<not> bracketed_host_ok lib (bracketed_host netloc)
               then Inl ValueError
               else checknetloc lib netloc)
         else checknetloc lib [])"

text \<open>\<open>sub in s\<close> for two strings.\<close>

fun contains :: "string \<Rightarrow> string \<Rightarrow> bool" where
  "contains sub [] = (sub = [])"
| "contains sub (c # cs) = (take (length sub) (c # cs) = sub \<or> contains sub cs)"

definition is_wikipedia_url :: "urllib_checks \<Rightarrow> string \<Rightarrow> bool" where
  "is_wikipedia_url lib url =
     (case urlparse_netloc lib url of
        Inr netloc \<Rightarrow> contains ''wikipedia.org'' netloc
      | Inl e \<Rightarrow> False)"

section \<open>The option loop\<close>

lemma build_options_stuck:
  assumes ret: "build_options rnd words opts p = Some y"
  shows "\<not> (words \<noteq> [] \<and> distinct opts \<and> card (set opts \<union> set words) < 4)"
proof (rule build_options.raw_induct
    [where P = "\<lambda>rnd words opts p y.
       \<not> (words \<noteq> [] \<and> distinct opts \<and> card (set opts \<union> set words) < 4)", OF _ ret])
  fix f rnd words opts p y
  assume IH: "\<And>rnd words opts p y. f rnd words opts p = Some y \<Longrightarrow>
      \<not> (words \<noteq> [] \<and> distinct opts \<and> card (set opts \<union> set words) < 4)"
    and eq: "(if length opts < 4 then
        (let pick = pick_option rnd words p
         in f rnd words (if pick \<notin> set opts then opts @ [pick] else opts) (Suc p))
      else Some (opts, p)) = Some y"
  show "\<not> (words \<noteq> [] \<and> distinct opts \<and> card (set opts \<union> set words) < 4)"
  proof
    assume inv: "words \<noteq> [] \<and> distinct opts \<and> card (set opts \<union> set words) < 4"
    then have "card (set opts) \<le> card (set opts \<union> set words)"
      by (intro card_mono) auto
    with inv have len: "length opts < 4"
      by (simp add: distinct_card)
    define pick where "pick = pick_option rnd words p"
    define opts' where "opts' = (if pick \<notin> set opts then opts @ [pick] else opts)"
    from inv have pick_in: "pick \<in> set words"
      by (simp add: pick_def pick_option_def choice_def randbelow_def)
    from eq len have "f rnd words opts' (Suc p) = Some y"
      by (auto simp: pick_def opts'_def Let_def)
    then have "\<not> (words \<noteq> [] \<and> distinct opts' \<and> card (set opts' \<union> set words) < 4)"
      by (rule IH)
    moreover from pick_in have "set opts' \<union> set words = set opts \<union> set words"
      by (auto simp: opts'_def)
    moreover from inv have "distinct opts'"
      by (simp add: opts'_def)
    ultimately show False using inv by simp
  qed
qed

lemma build_options_small_pool:
  assumes "words \<noteq> []" and "card (insert correct (set words)) < 4"
  shows "build_options rnd words [correct] p = None"
proof (cases "build_options rnd words [correct] p")
  case None
  then show ?thesis .
next
  case (Some y)
  then have "\<not> (words \<noteq> [] \<and> distinct [correct] \<and> card (set [correct] \<union> set words) < 4)"
    by (rule build_options_stuck)
  with assms show ?thesis by simp
qed

lemma build_options_inv:
  assumes ret: "build_options rnd words opts p = Some y"
  shows "distinct opts \<and> length opts \<le> 4 \<longrightarrow>
         distinct (fst y) \<and> length (fst y) = 4 \<and> set opts \<subseteq> set (fst y) \<and>
         set (fst y) \<subseteq> set opts \<union> range (pick_option rnd words)"
proof (rule build_options.raw_induct
    [where P = "\<lambda>rnd words opts p y. distinct opts \<and> length opts \<le> 4 \<longrightarrow>
         distinct (fst y) \<and> length (fst y) = 4 \<and> set opts \<subseteq> set (fst y) \<and>
         set (fst y) \<subseteq> set opts \<union> range (pick_option rnd words)", OF _ ret])
  fix f rnd words opts p y
  assume IH: "\<And>rnd words opts p y. f rnd words opts p = Some y \<Longrightarrow>
      distinct opts \<and> length opts \<le> 4 \<longrightarrow>
         distinct (fst y) \<and> length (fst y) = 4 \<and> set opts \<subseteq> set (fst y) \<and>
         set (fst y) \<subseteq> set opts \<union> range (pick_option rnd words)"
    and eq: "(if length opts < 4 then
        (let pick = pick_option rnd words p
         in f rnd words (if pick \<notin> set opts then opts @ [pick] else opts) (Suc p))
      else Some (opts, p)) = Some y"
  show "distinct opts \<and> length opts \<le> 4 \<longrightarrow>
         distinct (fst y) \<and> length (fst y) = 4 \<and> set opts \<subseteq> set (fst y) \<and>
         set (fst y) \<subseteq> set opts \<union> range (pick_option rnd words)"
  proof
    assume pre: "distinct opts \<and> length opts \<le> 4"
    show "distinct (fst y) \<and> length (fst y) = 4 \<and> set opts \<subseteq> set (fst y) \<and>
         set (fst y) \<subseteq> set opts \<union> range (pick_option rnd words)"
    proof (cases "length opts < 4")
      case False
      with eq pre show ?thesis by auto
    next
      case True
      define pick where "pick = pick_option rnd words p"
      define opts' where "opts' = (if pick \<notin> set opts then opts @ [pick] else opts)"
      from eq True have "f rnd words opts' (Suc p) = Some y"
        by (auto simp: pick_def opts'_def Let_def)
      from IH [OF this] have step: "distinct opts' \<and> length opts' \<le> 4 \<longrightarrow>
         distinct (fst y) \<and> length (fst y) = 4 \<and> set opts' \<subseteq> set (fst y) \<and>
         set (fst y) \<subseteq> set opts' \<union> range (pick_option rnd words)" .
      from pre True have pre': "distinct opts' \<and> length opts' \<le> 4"
        by (simp add: opts'_def)
      have sub: "set opts \<subseteq> set opts'" and sup: "set opts' \<subseteq> set opts \<union> range (pick_option rnd words)"
        by (auto simp: opts'_def pick_def)
      from step pre' sub sup show ?thesis by blast
    qed
  qed
qed

lemma build_options_skip:
  "length opts < 4 \<Longrightarrow> pick_option rnd words (p + k) \<notin> set opts \<Longrightarrow>
   (\<forall>j < k. pick_option rnd words (p + j) \<in> set opts) \<Longrightarrow>
   build_options rnd words opts p =
   build_options rnd words (opts @ [pick_option rnd words (p + k)]) (Suc (p + k))"
proof (induction k arbitrary: p)
  case 0
  then show ?case
    by (subst build_options.simps) simp
next
  case (Suc k)
  from Suc.prems(3) have here: "pick_option rnd words p \<in> set opts"
    by force
  have "build_options rnd words opts (Suc p) =
    build_options rnd words (opts @ [pick_option rnd words (Suc p + k)]) (Suc (Suc p + k))"
  proof (rule Suc.IH)
    show "length opts < 4" by (rule Suc.prems(1))
    show "pick_option rnd words (Suc p + k) \<notin> set opts" using Suc.prems(2) by simp
    show "\<forall>j<k. pick_option rnd words (Suc p + j) \<in> set opts"
      using Suc.prems(3) by (metis Suc_less_eq add_Suc_shift)
  qed
  moreover from Suc.prems(1) here
  have "build_options rnd words opts p = build_options rnd words opts (Suc p)"
    by (subst build_options.simps) simp
  ultimately show ?case by simp
qed

lemma build_options_progress:
  assumes len: "length opts < 4"
    and ex: "\<exists>k. pick_option rnd words (p + k) \<notin> set opts"
  shows "\<exists>pick p'. pick \<notin> set opts \<and>
     build_options rnd words opts p = build_options rnd words (opts @ [pick]) p'"
proof -
  define k where "k = (LEAST k. pick_option rnd words (p + k) \<notin> set opts)"
  from ex have fresh: "pick_option rnd words (p + k) \<notin> set opts"
    unfolding k_def by (rule LeastI_ex)
  have before: "\<forall>j < k. pick_option rnd words (p + j) \<in> set opts"
    unfolding k_def using not_less_Least by blast
  from build_options_skip [OF len fresh before] fresh show ?thesis by blast
qed

section \<open>Termination of the option loop on an empty pool\<close>

lemma mod_reach: "v < n \<Longrightarrow> (p + (v + (n - p mod n))) mod (n::nat) = v"
proof -
  assume v: "v < n"
  then have "p mod n \<le> n" by simp
  then have "p + (v + (n - p mod n)) = (p - p mod n) + (v + n)"
    using mod_less_eq_dividend [of p n] by simp
  also have "p - p mod n = n * (p div n)"
    by (simp add: minus_mod_eq_mult_div)
  finally show ?thesis using v by simp
qed

lemma fair_id: "fair (\<lambda>n. n)"
  unfolding fair_def using mod_reach by blast

lemma option_names: "distinct (map (\<lambda>v. ''Option'' @ str_nat (Suc v)) [0 ..< 4])"
  by (simp add: upt_rec str_nat.simps)

lemma fresh_option:
  assumes len: "length opts < 4" and fair: "fair rnd"
  shows "\<exists>k. pick_option rnd [] (p + k) \<notin> set opts"
proof -
  let ?f = "\<lambda>v. ''Option'' @ str_nat (Suc v)"
  have "card (set (map ?f [0 ..< 4])) = length (map ?f [0 ..< 4])"
    using option_names by (rule distinct_card)
  then have "card (?f ` {0 ..< 4}) = 4"
    by simp
  moreover have "card (set opts) \<le> length opts"
    by (rule card_length)
  ultimately have "\<not> ?f ` {0 ..< 4} \<subseteq> set opts"
    using len card_mono [of "set opts" "?f ` {0 ..< 4}"] by auto
  then obtain x where "x \<in> ?f ` {0 ..< 4}" and "x \<notin> set opts"
    by blast
  then obtain v where v: "v < 4" and out: "?f v \<notin> set opts"
    by auto
  from v have "v < (99::nat)" by simp
  with fair obtain k where "rnd (p + k) mod 99 = v"
    unfolding fair_def by blast
  with out have "pick_option rnd [] (p + k) \<notin> set opts"
    by (simp add: pick_option_def randint_def randbelow_def)
  then show ?thesis ..
qed

lemma build_options_returns:
  assumes fair: "fair rnd"
  shows "\<exists>y. build_options rnd [] opts p = Some y"
proof (induction "4 - length opts" arbitrary: opts p)
  case 0
  then have "\<not> length opts < 4" by simp
  then show ?case by (subst build_options.simps) simp
next
  case (Suc m)
  then have len: "length opts < 4" by simp
  from fresh_option [OF len fair]
  have "\<exists>k. pick_option rnd [] (p + k) \<notin> set opts" .
  with len obtain pick p' where
    eq: "build_options rnd [] opts p = build_options rnd [] (opts @ [pick]) p'"
    using build_options_progress by blast
  from Suc.hyps(2) have "m = 4 - length (opts @ [pick])" by simp
  then have "\<exists>y. build_options rnd [] (opts @ [pick]) p' = Some y"
    by (rule Suc.hyps(1))
  with eq show ?case by simp
qed

section \<open>Shuffling permutes\<close>

lemma shuffle_loop_mset:
  "n < length xs \<or> n = 0 \<Longrightarrow> mset (fst (shuffle_loop rnd n xs p)) = mset xs"
proof (induction n arbitrary: xs p)
  case 0
  then show ?case by simp
next
  case (Suc n)
  define j where "j = randbelow rnd (Suc n + 1) p"
  define ys where "ys = xs[Suc n := xs ! j, j := xs ! Suc n]"
  from Suc.prems have i: "Suc n < length xs" by simp
  have "j < Suc n + 1" by (simp add: j_def randbelow_def)
  with i have j: "j < length xs" by simp
  from j i have "mset ys = mset xs"
    unfolding ys_def by (rule mset_swap)
  moreover from i have "n < length ys \<or> n = 0" by (simp add: ys_def)
  then have "mset (fst (shuffle_loop rnd n ys (Suc p))) = mset ys"
    by (rule Suc.IH)
  ultimately show ?case by (simp add: Let_def j_def ys_def)
qed

lemma shuffle_mset: "mset (fst (shuffle rnd xs p)) = mset xs"
  unfolding shuffle_def by (rule shuffle_loop_mset) (cases xs; simp)

section \<open>The word pool\<close>

lemma set_dedup: "set (dedup xs) = set xs"
  by (induction xs) auto

lemma distinct_dedup: "distinct (dedup xs)"
  by (induction xs) (auto simp: set_dedup)

lemma word_pool_subset: "set (word_pool h S) \<subseteq> set (pool_tokens S)"
proof -
  have "set (word_pool h S) \<subseteq> set (list_of_set h (dedup (pool_tokens S)))"
    unfolding word_pool_def by (rule set_take_subset)
  then show ?thesis by (simp add: list_of_set_def set_dedup)
qed

lemma word_pool_Nil_iff: "word_pool h S = [] \<longleftrightarrow> pool_tokens S = []"
proof -
  have "dedup (pool_tokens S) = [] \<longleftrightarrow> pool_tokens S = []"
    by (cases "pool_tokens S") simp_all
  moreover have "list_of_set h (dedup (pool_tokens S)) = [] \<longleftrightarrow> dedup (pool_tokens S) = []"
    unfolding list_of_set_def by (metis length_0_conv length_sort)
  ultimately show ?thesis by (simp add: word_pool_def)
qed

lemma word_pool_distinct: "distinct (word_pool h S)"
  by (simp add: word_pool_def list_of_set_def distinct_dedup)

section \<open>Termination of the option loop on a pool of four words or more\<close>

lemma fresh_word:
  assumes len: "length opts < 4" and big: "4 \<le> card (set words)" and fair: "fair rnd"
  shows "\<exists>k. pick_option rnd words (p + k) \<notin> set opts"
proof -
  have "card (set opts) \<le> length opts"
    by (rule card_length)
  with len big have "\<not> set words \<subseteq> set opts"
    using card_mono [of "set opts" "set words"] by auto
  then obtain w where "w \<in> set words" and out: "w \<notin> set opts"
    by blast
  then obtain j where j: "j < length words" and w: "words ! j = w"
    by (auto simp: in_set_conv_nth)
  from fair j obtain k where "rnd (p + k) mod length words = j"
    unfolding fair_def by blast
  with j w out have "pick_option rnd words (p + k) \<notin> set opts"
    by (auto simp: pick_option_def choice_def randbelow_def)
  then show ?thesis ..
qed

lemma build_options_returns_pool:
  assumes fair: "fair rnd" and pool: "words = [] \<or> 4 \<le> card (set words)"
  shows "\<exists>y. build_options rnd words opts p = Some y"
proof (induction "4 - length opts" arbitrary: opts p)
  case 0
  then have "\<not> length opts < 4" by simp
  then show ?case by (subst build_options.simps) simp
next
  case (Suc m)
  then have len: "length opts < 4" by simp
  have "\<exists>k. pick_option rnd words (p + k) \<notin> set opts"
    using pool fresh_option [OF len fair] fresh_word [OF len _ fair] by blast
  with len obtain pick p' where
    eq: "build_options rnd words opts p = build_options rnd words (opts @ [pick]) p'"
    using build_options_progress by blast
  from Suc.hyps(2) have "m = 4 - length (opts @ [pick])" by simp
  then have "\<exists>y. build_options rnd words (opts @ [pick]) p' = Some y"
    by (rule Suc.hyps(1))
  with eq show ?case by simp
qed

section \<open>One question\<close>


lemma make_question_options:
  assumes "make_question rnd sentences words ttl summ i p = Some (q, p')"
  shows "\<exists>opts p1 p2. build_options rnd words [answer q] p1 = Some (opts, p2) \<and>
           mset (options q) = mset opts"
proof -
  from assms obtain correct p1 opts p2 where
    b: "build_options rnd words [correct] p1 = Some (opts, p2)"
    and q: "q = \<lparr>question = question_text ttl summ (sentences ! source_index i sentences) @ ''?'',
                options = fst (shuffle rnd opts p2), answer = correct,
                explanation = explanation_of (sentences ! source_index i sentences),
                difficulty = choice rnd difficulties (snd (shuffle rnd opts p2))\<rparr>"
    by (auto simp: make_question_def Let_def split: prod.splits option.splits)
  from q have "mset (options q) = mset opts"
    by (simp add: shuffle_mset)
  with b q show ?thesis by auto
qed

lemma make_question_valid:
  assumes "make_question rnd sentences words ttl summ i p = Some (q, p')"
  shows "length (options q) = 4 \<and> distinct (options q) \<and> answer q \<in> set (options q)"
proof -
  from make_question_options [OF assms] obtain opts p1 p2 where
    b: "build_options rnd words [answer q] p1 = Some (opts, p2)"
    and m: "mset (options q) = mset opts"
    by blast
  from build_options_inv [OF b]
  have "distinct opts \<and> length opts = 4 \<and> answer q \<in> set opts"
    by simp
  moreover from m have "length (options q) = length opts"
    by (rule mset_eq_length)
  moreover from m have "set (options q) = set opts"
    by (rule mset_eq_setD)
  moreover from m have "distinct (options q) = distinct opts"
    by (rule mset_eq_imp_distinct_iff)
  ultimately show ?thesis by simp
qed

lemma make_question_returns:
  assumes "fair rnd" and "words = [] \<or> 4 \<le> card (set words)"
  shows "\<exists>y. make_question rnd sentences words ttl summ i p = Some y"
proof -
  obtain correct p1 where c: "choose_correct rnd ttl (sentences ! source_index i sentences) p = (correct, p1)"
    by (cases "choose_correct rnd ttl (sentences ! source_index i sentences) p")
  from build_options_returns_pool [OF assms]
  obtain opts p2 where "build_options rnd words [correct] p1 = Some (opts, p2)"
    by fastforce
  with c show ?thesis
    by (simp add: make_question_def Let_def split: prod.splits)
qed

section \<open>The loop over the questions\<close>

lemma quiz_loop_length:
  "quiz_loop rnd sentences words ttl summ is p = Some (qs, p') \<Longrightarrow> length qs = length is"
  by (induction "is" arbitrary: p qs) (auto split: option.splits)

lemma quiz_loop_nth:
  "quiz_loop rnd sentences words ttl summ is p = Some (qs, p') \<Longrightarrow> k < length is \<Longrightarrow>
   \<exists>pk pk'. make_question rnd sentences words ttl summ (is ! k) pk = Some (qs ! k, pk')"
proof (induction "is" arbitrary: p qs k)
  case Nil
  then show ?case by simp
next
  case (Cons i "is")
  from Cons.prems(1) obtain q p1 qs' where
    q: "make_question rnd sentences words ttl summ i p = Some (q, p1)"
    and rest: "quiz_loop rnd sentences words ttl summ is p1 = Some (qs', p')"
    and qs: "qs = q # qs'"
    by (auto split: option.splits)
  show ?case
  proof (cases k)
    case 0
    with q qs show ?thesis by auto
  next
    case (Suc k')
    with Cons.prems(2) have "k' < length is" by simp
    from Cons.IH [OF rest this] Suc qs show ?thesis by simp
  qed
qed

lemma quiz_loop_returns:
  assumes "\<And>i p. \<exists>y. make_question rnd sentences words ttl summ i p = Some y"
  shows "\<exists>y. quiz_loop rnd sentences words ttl summ is p = Some y"
proof (induction "is" arbitrary: p)
  case Nil
  show ?case by simp
next
  case (Cons i "is")
  from assms obtain q p1 where "make_question rnd sentences words ttl summ i p = Some (q, p1)"
    by fastforce
  moreover from Cons.IH obtain qs p2 where "quiz_loop rnd sentences words ttl summ is p1 = Some (qs, p2)"
    by fastforce
  ultimately show ?case by simp
qed

lemma num_q_bounds: "5 \<le> num_q_of sentences \<and> num_q_of sentences \<le> 7"
  by (simp add: num_q_of_def)

text \<open>
  The list of sentences is never empty, so \<open>sentences[idx]\<close> is always read in
  range: the model hides no \<open>IndexError\<close>.
\<close>

lemma sentences_nonempty: "sentences_of ttl summ clean_text \<noteq> []"
  by (simp add: sentences_of_def Let_def)

lemma source_index_in_range:
  "source_index i (sentences_of ttl summ clean_text) < length (sentences_of ttl summ clean_text)"
  using sentences_nonempty [of ttl summ clean_text] by (simp add: source_index_def)

section \<open>The generator as a whole\<close>

lemma fallback_result:
  assumes "fallback_generate_from_text h rnd p0 ttl summ clean_text secs = Some r"
  shows "\<exists>p'. quiz_loop rnd (sentences_of ttl summ clean_text)
            (word_pool h (sentences_of ttl summ clean_text)) ttl summ
            [0 ..< num_q_of (sentences_of ttl summ clean_text)] p0 = Some (quiz r, p')"
    and "related_topics r = related_of secs (word_pool h (sentences_of ttl summ clean_text))"
    and "title r = Some ttl" and "summary r = Some summ"
  using assms
  by (auto simp: fallback_generate_from_text_def Let_def split: option.splits)

lemma fallback_length:
  assumes "fallback_generate_from_text h rnd p0 ttl summ clean_text secs = Some r"
  shows "length (quiz r) = num_q_of (sentences_of ttl summ clean_text)"
  using fallback_result(1) [OF assms] quiz_loop_length by fastforce

lemma fallback_question:
  assumes ret: "fallback_generate_from_text h rnd p0 ttl summ clean_text secs = Some r"
    and i: "i < length (quiz r)"
  shows "\<exists>p p'. make_question rnd (sentences_of ttl summ clean_text)
            (word_pool h (sentences_of ttl summ clean_text)) ttl summ i p = Some (quiz r ! i, p')"
proof -
  let ?n = "num_q_of (sentences_of ttl summ clean_text)"
  from fallback_result(1) [OF ret] obtain p1 where
    loop: "quiz_loop rnd (sentences_of ttl summ clean_text)
            (word_pool h (sentences_of ttl summ clean_text)) ttl summ [0 ..< ?n] p0 = Some (quiz r, p1)"
    by blast
  from i fallback_length [OF ret] have k: "i < length [0 ..< ?n]" by simp
  from quiz_loop_nth [OF loop k] k show ?thesis by simp
qed

lemma fallback_returns:
  assumes fair: "fair rnd"
    and pool: "pool_tokens (sentences_of ttl summ clean_text) = [] \<or>
               4 \<le> card (set (word_pool h (sentences_of ttl summ clean_text)))"
  shows "\<exists>r. fallback_generate_from_text h rnd p0 ttl summ clean_text secs = Some r"
proof -
  let ?S = "sentences_of ttl summ clean_text"
  from pool have "word_pool h ?S = [] \<or> 4 \<le> card (set (word_pool h ?S))"
    by (simp add: word_pool_Nil_iff)
  then have "\<And>i p. \<exists>y. make_question rnd ?S (word_pool h ?S) ttl summ i p = Some y"
    using make_question_returns [OF fair] by blast
  then have "\<exists>y. quiz_loop rnd ?S (word_pool h ?S) ttl summ [0 ..< num_q_of ?S] p0 = Some y"
    by (rule quiz_loop_returns)
  then show ?thesis
    by (auto simp: fallback_generate_from_text_def Let_def)
qed

lemma fallback_never_returns:
  assumes pool: "pool_tokens (sentences_of ttl summ clean_text) \<noteq> []"
    and small: "card (insert
        (fst (choose_correct rnd ttl (sentences_of ttl summ clean_text ! 0) p0))
        (set (pool_tokens (sentences_of ttl summ clean_text)))) < 4"
  shows "fallback_generate_from_text h rnd p0 ttl summ clean_text secs = None"
proof -
  let ?S = "sentences_of ttl summ clean_text"
  let ?c = "fst (choose_correct rnd ttl (?S ! 0) p0)"
  have "insert ?c (set (word_pool h ?S)) \<subseteq> insert ?c (set (pool_tokens ?S))"
    using word_pool_subset by blast
  then have "card (insert ?c (set (word_pool h ?S))) \<le> card (insert ?c (set (pool_tokens ?S)))"
    by (intro card_mono) auto
  with small have c: "card (insert ?c (set (word_pool h ?S))) < 4" by simp
  from pool have w: "word_pool h ?S \<noteq> []" by (simp add: word_pool_Nil_iff)
  have "build_options rnd (word_pool h ?S) [?c] (snd (choose_correct rnd ttl (?S ! 0) p0)) = None"
    using w c by (rule build_options_small_pool)
  then have "make_question rnd ?S (word_pool h ?S) ttl summ 0 p0 = None"
    by (simp add: make_question_def source_index_def Let_def case_prod_beta)
  moreover have "[0 ..< num_q_of ?S] = 0 # [1 ..< num_q_of ?S]"
    using num_q_bounds [of ?S] by (simp add: upt_rec)
  ultimately show ?thesis
    by (simp add: fallback_generate_from_text_def Let_def)
qed

section \<open>Claims about the option loop and the question count\<close>

lemma hello_world_sentences: "sentences_of ttl '''' ''Hello world.'' = [''Hello world'']"
  by (simp add: sentences_of_def split_sentences_def split_on_def strip_def strip_by_def
      lstrip_by_def rstrip_by_def isspace_def)

lemma hello_world_pool: "pool_tokens [''Hello world''] = [''Hello'', ''World'']"
  by (simp add: pool_tokens_def split_ws_def isspace_def strip_punct_def strip_by_def
      lstrip_by_def rstrip_by_def punct_def isnumeric_def isdigit_def upper_def lower_def
      ascii_uppercase_def ascii_lowercase_def)

lemma hello_world_correct: "choose_correct rnd ttl ''Hello world'' p = (''Hello'', Suc p)"
  by (simp add: choose_correct_def candidates_of_def split_ws_def isspace_def strip_punct_def
      strip_by_def lstrip_by_def rstrip_by_def punct_def istitle_def isupper_def islower_def
      ascii_uppercase_def ascii_lowercase_def choice_def randbelow_def)

text \<open>
  Claim C1 says that the fallback generator returns a quiz on every input, the loop that
  builds the four options completing for every reachable answer and word pool. On the
  article text \<open>Hello world.\<close> the pool is \<open>{Hello, World}\<close> and the answer of
  the first question is \<open>Hello\<close>: the loop can reach two options only, and the
  generator returns for no random source, no set order, no title and no section list.
\<close>

theorem fallback_hello_world_never_returns:
  "fallback_generate_from_text h rnd p0 ttl '''' ''Hello world.'' secs = None"
  by (rule fallback_never_returns)
    (simp_all add: hello_world_sentences hello_world_pool hello_world_correct)

lemma hello_sentences: "sentences_of ''Hello'' '''' '''' = [''Hello'']"
  by (simp add: sentences_of_def split_sentences_def split_on_def strip_def strip_by_def
      lstrip_by_def rstrip_by_def isspace_def)

lemma hello_pool: "pool_tokens [''Hello''] = [''Hello'']"
  by (simp add: pool_tokens_def split_ws_def isspace_def strip_punct_def strip_by_def
      lstrip_by_def rstrip_by_def punct_def isnumeric_def isdigit_def upper_def lower_def
      ascii_uppercase_def ascii_lowercase_def)

lemma hello_correct: "choose_correct rnd ttl ''Hello'' p = (''Hello'', Suc p)"
  by (simp add: choose_correct_def candidates_of_def split_ws_def isspace_def strip_punct_def
      strip_by_def lstrip_by_def rstrip_by_def punct_def istitle_def isupper_def islower_def
      ascii_uppercase_def ascii_lowercase_def choice_def randbelow_def)

text \<open>
  Claim C3 says that the generator produces \<open>num_q\<close> questions on every input and
  never an empty quiz, also when \<open>clean_text\<close>, \<open>summary\<close> and \<open>sections\<close>
  are all empty. With the title \<open>Hello\<close> and everything else empty, the only
  sentence is the title, the pool is \<open>{Hello}\<close> and the answer is \<open>Hello\<close>:
  the generator produces no quiz at all, whatever the random source.
\<close>

theorem fallback_title_only_never_returns:
  "fallback_generate_from_text h rnd p0 ''Hello'' '''' '''' [] = None"
  by (rule fallback_never_returns)
    (simp_all add: hello_sentences hello_pool hello_correct)

lemma foo_sentences: "sentences_of ''Foo'' '''' '''' = [''Foo'']"
  by (simp add: sentences_of_def split_sentences_def split_on_def strip_def strip_by_def
      lstrip_by_def rstrip_by_def isspace_def)

lemma foo_pool: "pool_tokens [''Foo''] = []"
  by (simp add: pool_tokens_def split_ws_def isspace_def strip_punct_def strip_by_def
      lstrip_by_def rstrip_by_def punct_def isnumeric_def isdigit_def upper_def lower_def
      ascii_uppercase_def ascii_lowercase_def)

lemma foo_returns:
  "\<exists>r. fallback_generate_from_text h (\<lambda>n. n) p0 ''Foo'' '''' '''' secs = Some r"
  by (rule fallback_returns) (simp_all add: fair_id foo_sentences foo_pool)

text \<open>
  Claim C2: on every input on which the fallback generator returns, every question of
  the quiz has exactly four options, pairwise distinct, and its answer is one of them.
\<close>

theorem fallback_options_valid:
  assumes "fallback_generate_from_text h rnd p0 ttl summ clean_text secs = Some r"
  shows "\<forall>q \<in> set (quiz r).
           length (options q) = 4 \<and> distinct (options q) \<and> answer q \<in> set (options q)"
proof
  fix q
  assume "q \<in> set (quiz r)"
  then obtain i where i: "i < length (quiz r)" and q: "quiz r ! i = q"
    by (auto simp: in_set_conv_nth)
  from fallback_question [OF assms i] q obtain p p' where
    "make_question rnd (sentences_of ttl summ clean_text)
       (word_pool h (sentences_of ttl summ clean_text)) ttl summ i p = Some (q, p')"
    by auto
  then show "length (options q) = 4 \<and> distinct (options q) \<and> answer q \<in> set (options q)"
    by (rule make_question_valid)
qed

theorem fallback_options_valid_witness:
  "\<exists>r. fallback_generate_from_text (\<lambda>w. 0) (\<lambda>n. n) 0 ''Foo'' '''' '''' [] = Some r \<and>
       list_all (\<lambda>q. length (options q) = 4 \<and> distinct (options q) \<and> answer q \<in> set (options q))
         (quiz r)"
proof -
  from foo_returns obtain r where
    r: "fallback_generate_from_text (\<lambda>w. 0) (\<lambda>n. n) 0 ''Foo'' '''' '''' [] = Some r"
    by blast
  from fallback_options_valid [OF r] r show ?thesis
    by (auto simp: list_all_iff)
qed

section \<open>Related topics\<close>

lemma length_dedup: "length (dedup xs) \<le> length xs"
proof (induction xs)
  case Nil
  show ?case by simp
next
  case (Cons x xs)
  have "length (filter (\<lambda>y. y \<noteq> x) (dedup xs)) \<le> length (dedup xs)"
    by (rule length_filter_le)
  then have "length (filter (\<lambda>y. y \<noteq> x) (dedup xs)) \<le> length xs"
    using Cons by (rule le_trans)
  then show ?case by simp
qed

lemma filter_known: "x \<in> set r \<Longrightarrow>
    filter (\<lambda>s. s \<notin> set r) (filter (\<lambda>y. y \<noteq> x) ys) = filter (\<lambda>s. s \<notin> set r) ys"
  by (induction ys) auto

lemma filter_new: "filter (\<lambda>s. s \<notin> set (r @ [x])) ys =
    filter (\<lambda>s. s \<notin> set r) (filter (\<lambda>y. y \<noteq> x) ys)"
  by (induction ys) auto

lemma sections_loop:
  "fold (\<lambda>s r. if s \<noteq> [] \<and> s \<notin> set r then r @ [s] else r) xs r =
   r @ filter (\<lambda>s. s \<notin> set r) (dedup (filter (\<lambda>s. s \<noteq> []) xs))"
proof (induction xs arbitrary: r)
  case Nil
  show ?case by simp
next
  case (Cons x xs)
  let ?f = "\<lambda>s r. if s \<noteq> [] \<and> s \<notin> set r then r @ [s] else r"
  let ?D = "dedup (filter (\<lambda>s. s \<noteq> []) xs)"
  show ?case
  proof (cases "x = []")
    case True
    then show ?thesis using Cons.IH [of r] by simp
  next
    case False
    note nonempty = this
    show ?thesis
    proof (cases "x \<in> set r")
      case True
      with nonempty have "fold ?f (x # xs) r = fold ?f xs r" by simp
      also have "\<dots> = r @ filter (\<lambda>s. s \<notin> set r) ?D" by (rule Cons.IH)
      also have "filter (\<lambda>s. s \<notin> set r) ?D =
          filter (\<lambda>s. s \<notin> set r) (filter (\<lambda>y. y \<noteq> x) ?D)"
        using True by (simp only: filter_known)
      also have "\<dots> = filter (\<lambda>s. s \<notin> set r) (x # filter (\<lambda>y. y \<noteq> x) ?D)"
        using True by simp
      also have "x # filter (\<lambda>y. y \<noteq> x) ?D = dedup (filter (\<lambda>s. s \<noteq> []) (x # xs))"
        using nonempty by simp
      finally show ?thesis .
    next
      case False
      with nonempty have "fold ?f (x # xs) r = fold ?f xs (r @ [x])" by simp
      also have "\<dots> = (r @ [x]) @ filter (\<lambda>s. s \<notin> set (r @ [x])) ?D" by (rule Cons.IH)
      also have "filter (\<lambda>s. s \<notin> set (r @ [x])) ?D =
          filter (\<lambda>s. s \<notin> set r) (filter (\<lambda>y. y \<noteq> x) ?D)"
        by (rule filter_new)
      also have "(r @ [x]) @ filter (\<lambda>s. s \<notin> set r) (filter (\<lambda>y. y \<noteq> x) ?D) =
          r @ filter (\<lambda>s. s \<notin> set r) (x # filter (\<lambda>y. y \<noteq> x) ?D)"
        using False by simp
      also have "x # filter (\<lambda>y. y \<noteq> x) ?D = dedup (filter (\<lambda>s. s \<noteq> []) (x # xs))"
        using nonempty by simp
      finally show ?thesis .
    qed
  qed
qed

lemma words_loop:
  "fold (\<lambda>w r. if w \<notin> set r \<and> length r < 6 then r @ [w] else r) ws r =
   r @ take (6 - length r) (filter (\<lambda>w. w \<notin> set r) (dedup ws))"
proof (induction ws arbitrary: r)
  case Nil
  show ?case by simp
next
  case (Cons w ws)
  let ?f = "\<lambda>w r. if w \<notin> set r \<and> length r < 6 then r @ [w] else r"
  show ?case
  proof (cases "length r < 6")
    case False
    then have "fold ?f (w # ws) r = fold ?f ws r" by simp
    also have "\<dots> = r @ take (6 - length r) (filter (\<lambda>w. w \<notin> set r) (dedup ws))"
      by (rule Cons.IH)
    finally show ?thesis using False by simp
  next
    case True
    note room = this
    show ?thesis
    proof (cases "w \<in> set r")
      case True
      then have "fold ?f (w # ws) r = fold ?f ws r" by simp
      also have "\<dots> = r @ take (6 - length r) (filter (\<lambda>w. w \<notin> set r) (dedup ws))"
        by (rule Cons.IH)
      also have "filter (\<lambda>w. w \<notin> set r) (dedup ws) =
          filter (\<lambda>s. s \<notin> set r) (filter (\<lambda>y. y \<noteq> w) (dedup ws))"
        using True by (simp only: filter_known)
      also have "\<dots> = filter (\<lambda>s. s \<notin> set r) (w # filter (\<lambda>y. y \<noteq> w) (dedup ws))"
        using True by simp
      also have "w # filter (\<lambda>y. y \<noteq> w) (dedup ws) = dedup (w # ws)"
        by simp
      finally show ?thesis .
    next
      case False
      from room have n: "6 - length r = Suc (6 - length (r @ [w]))" by auto
      from False room have "fold ?f (w # ws) r = fold ?f ws (r @ [w])" by simp
      also have "\<dots> = (r @ [w]) @ take (6 - length (r @ [w]))
          (filter (\<lambda>s. s \<notin> set (r @ [w])) (dedup ws))"
        by (rule Cons.IH)
      also have "filter (\<lambda>s. s \<notin> set (r @ [w])) (dedup ws) =
          filter (\<lambda>s. s \<notin> set r) (filter (\<lambda>y. y \<noteq> w) (dedup ws))"
        by (rule filter_new)
      also have "(r @ [w]) @ take (6 - length (r @ [w]))
            (filter (\<lambda>s. s \<notin> set r) (filter (\<lambda>y. y \<noteq> w) (dedup ws))) =
          r @ take (6 - length r)
            (filter (\<lambda>s. s \<notin> set r) (w # filter (\<lambda>y. y \<noteq> w) (dedup ws)))"
        using False by (simp only: n) simp
      also have "w # filter (\<lambda>y. y \<noteq> w) (dedup ws) = dedup (w # ws)"
        by simp
      finally show ?thesis .
    qed
  qed
qed

lemma related_of_spec: "related_of secs words = related_topics_spec secs words"
  by (simp add: related_of_def related_topics_spec_def Let_def sections_loop words_loop)

lemma related_spec_length: "length (related_topics_spec secs words) \<le> 6"
proof -
  have "length (dedup (filter (\<lambda>s. s \<noteq> []) (take 5 secs))) \<le> length (filter (\<lambda>s. s \<noteq> []) (take 5 secs))"
    by (rule length_dedup)
  also have "\<dots> \<le> length (take 5 secs)"
    by (rule length_filter_le)
  finally have "length (dedup (filter (\<lambda>s. s \<noteq> []) (take 5 secs))) \<le> 5"
    by simp
  then show ?thesis
    by (simp add: related_topics_spec_def Let_def)
qed

lemma related_spec_distinct: "distinct (related_topics_spec secs words)"
proof -
  let ?a = "dedup (filter (\<lambda>s. s \<noteq> []) (take 5 secs))"
  let ?b = "take (6 - length ?a) (filter (\<lambda>w. w \<notin> set ?a) (dedup (take 6 words)))"
  have "distinct ?a" by (rule distinct_dedup)
  moreover have "distinct ?b" by (simp add: distinct_dedup)
  moreover have "set ?b \<subseteq> set (filter (\<lambda>w. w \<notin> set ?a) (dedup (take 6 words)))"
    by (rule set_take_subset)
  then have "set ?a \<inter> set ?b = {}" by auto
  ultimately show ?thesis
    by (simp add: related_topics_spec_def Let_def)
qed

text \<open>
  Claim C6: the related topics of the fallback result are the first five section titles
  in order, without the empty and the repeated ones, filled up to six entries from the
  first six words of the pool that are not listed yet; so they are at most six, pairwise
  distinct, and with the sections \<open>History\<close> and \<open>Geography\<close> these two come first.
\<close>

theorem fallback_related_topics:
  assumes "fallback_generate_from_text h rnd p0 ttl summ clean_text secs = Some r"
  shows "related_topics r =
           related_topics_spec secs (word_pool h (sentences_of ttl summ clean_text)) \<and>
         length (related_topics r) \<le> 6 \<and> distinct (related_topics r) \<and>
         (secs = [''History'', ''Geography''] \<longrightarrow>
            take 2 (related_topics r) = [''History'', ''Geography''])"
proof -
  from fallback_result(2) [OF assms]
  have eq: "related_topics r =
      related_topics_spec secs (word_pool h (sentences_of ttl summ clean_text))"
    by (simp add: related_of_spec)
  moreover have "secs = [''History'', ''Geography''] \<longrightarrow>
      take 2 (related_topics r) = [''History'', ''Geography'']"
    by (simp add: eq related_topics_spec_def)
  ultimately show ?thesis
    by (simp add: related_spec_length related_spec_distinct)
qed

theorem fallback_related_topics_witness:
  "\<exists>r. fallback_generate_from_text (\<lambda>w. 0) (\<lambda>n. n) 0 ''Foo'' '''' ''''
          [''History'', ''Geography''] = Some r \<and>
       related_topics r = [''History'', ''Geography''] \<and>
       take 2 (related_topics r) = [''History'', ''Geography'']"
proof -
  from foo_returns obtain r where
    r: "fallback_generate_from_text (\<lambda>w. 0) (\<lambda>n. n) 0 ''Foo'' '''' ''''
          [''History'', ''Geography''] = Some r"
    by blast
  have "word_pool (\<lambda>w. 0) (sentences_of ''Foo'' '''' '''') = []"
    by (simp add: word_pool_Nil_iff foo_sentences foo_pool)
  with fallback_related_topics [OF r] r show ?thesis
    by (simp add: related_topics_spec_def)
qed

section \<open>The title as the only sentence\<close>






section \<open>The answer of a question\<close>














section \<open>Wikipedia URLs: the substring test\<close>

lemma take_is_prefix: "take (length sub) s = sub \<longleftrightarrow> (\<exists>b. s = sub @ b)"
proof
  assume "take (length sub) s = sub"
  then have "s = sub @ drop (length sub) s"
    by (metis append_take_drop_id)
  then show "\<exists>b. s = sub @ b" ..
next
  assume "\<exists>b. s = sub @ b"
  then show "take (length sub) s = sub" by auto
qed

lemma contains_iff: "contains sub s \<longleftrightarrow> (\<exists>a b. s = a @ sub @ b)"
proof (induction s)
  case Nil
  show ?case by auto
next
  case (Cons c cs)
  have "(\<exists>a b. c # cs = a @ sub @ b) \<longleftrightarrow>
        (\<exists>b. c # cs = sub @ b) \<or> (\<exists>a b. cs = a @ sub @ b)"
  proof
    assume "\<exists>a b. c # cs = a @ sub @ b"
    then obtain a b where ab: "c # cs = a @ sub @ b" by blast
    show "(\<exists>b. c # cs = sub @ b) \<or> (\<exists>a b. cs = a @ sub @ b)"
    proof (cases a)
      case Nil
      with ab show ?thesis by auto
    next
      case (Cons x a')
      with ab have "cs = a' @ sub @ b" by simp
      then show ?thesis by blast
    qed
  next
    assume "(\<exists>b. c # cs = sub @ b) \<or> (\<exists>a b. cs = a @ sub @ b)"
    then show "\<exists>a b. c # cs = a @ sub @ b"
    proof
      assume "\<exists>b. c # cs = sub @ b"
      then obtain b where "c # cs = [] @ sub @ b" by auto
      then show ?thesis by blast
    next
      assume "\<exists>a b. cs = a @ sub @ b"
      then obtain a b where "c # cs = (c # a) @ sub @ b" by auto
      then show ?thesis by blast
    qed
  qed
  with Cons take_is_prefix [of sub "c # cs"] show ?case by simp
qed

lemmas url_defs =
  is_wikipedia_url_def urlparse_netloc_def checknetloc_def splitnetloc_def drop_scheme_def
  c0_control_or_space_def unsafe_url_bytes_def scheme_chars_def isascii_def isalpha_def
  isupper_def islower_def ascii_uppercase_def ascii_lowercase_def

text \<open>
  Claim C10: \<open>is_wikipedia_url\<close> returns a boolean on every string, an error of the
  URL parser being answered with \<open>False\<close>, and it is \<open>True\<close> exactly when
  \<open>wikipedia.org\<close> occurs somewhere in the netloc of the parsed URL; so the hosts
  \<open>wikipedia.org.example.com\<close> and \<open>fakewikipedia.org\<close> are accepted.
\<close>

theorem is_wikipedia_url_substring:
  "is_wikipedia_url lib url =
     (\<exists>netloc a b. urlparse_netloc lib url = Inr netloc \<and> netloc = a @ ''wikipedia.org'' @ b) \<and>
   urlparse_netloc lib ''https://wikipedia.org.example.com/wiki/X'' =
     Inr ''wikipedia.org.example.com'' \<and>
   is_wikipedia_url lib ''https://wikipedia.org.example.com/wiki/X'' \<and>
   urlparse_netloc lib ''http://fakewikipedia.org'' = Inr ''fakewikipedia.org'' \<and>
   is_wikipedia_url lib ''http://fakewikipedia.org'' \<and>
   urlparse_netloc lib ''http://[wikipedia.org/'' = Inl ValueError \<and>
   \<not> is_wikipedia_url lib ''http://[wikipedia.org/''"
proof -
  have general: "is_wikipedia_url lib url =
     (\<exists>netloc a b. urlparse_netloc lib url = Inr netloc \<and> netloc = a @ ''wikipedia.org'' @ b)"
  proof (cases "urlparse_netloc lib url")
    case (Inl e)
    then show ?thesis by (simp add: is_wikipedia_url_def)
  next
    case (Inr netloc)
    then show ?thesis by (simp add: is_wikipedia_url_def contains_iff)
  qed
  have n1: "urlparse_netloc lib ''https://wikipedia.org.example.com/wiki/X'' =
     Inr ''wikipedia.org.example.com''"
    by (simp add: url_defs)
  have n2: "urlparse_netloc lib ''http://fakewikipedia.org'' = Inr ''fakewikipedia.org''"
    by (simp add: url_defs)
  have n3: "urlparse_netloc lib ''http://[wikipedia.org/'' = Inl ValueError"
    by (simp add: url_defs)
  have "is_wikipedia_url lib ''https://wikipedia.org.example.com/wiki/X''"
    by (simp add: is_wikipedia_url_def n1)
  moreover have "is_wikipedia_url lib ''http://fakewikipedia.org''"
    by (simp add: is_wikipedia_url_def n2)
  moreover have "\<not> is_wikipedia_url lib ''http://[wikipedia.org/''"
    by (simp add: is_wikipedia_url_def n3)
  ultimately show ?thesis using general n1 n2 n3 by blast
qed

section \<open>The choice of a provider: order and fallthrough\<close>


section \<open>What the validation step accepts\<close>






end
